theory Spec2Isabelle
  imports Complex_Main "HOL-Library.Sublist"
begin

section \<open>Numeric values of the SNR script\<close>

text \<open>
  The script \<^verbatim>\<open>snr_analysis.py\<close> computes with numpy floating-point scalars. A scalar is
  a finite number, one of the two infinities, or not-a-number. The functions of this
  section and the next compute finite values as exact reals, with no rounding, overflow
  or underflow; the section on rounded arithmetic has the same function with the rounding
  of the machine format. Zero carries no sign. The special values follow IEEE 754 as numpy
  implements it: numpy scalar arithmetic does not raise on division by zero, on the
  logarithm of zero or on the mean of an empty array; it returns an infinity or
  not-a-number (and emits a warning, which is not modelled).

  Audio samples are finite numbers, so a sample sequence is a list of reals.
\<close>

datatype npfloat = Finite real | PosInf | NegInf | NaN

text \<open>The only failure of the arithmetic: numpy's \<^verbatim>\<open>ValueError\<close> when two arrays cannot
  be broadcast to one shape; \<^verbatim>\<open>LoadFailure\<close> is what the audio loader raises.\<close>

datatype error = BroadcastError | LoadFailure string

text \<open>\<^verbatim>\<open>np.square(x)\<close>: a new array holding the squares.\<close>

definition np_square :: "real list \<Rightarrow> real list" where
  "np_square xs = map (\<lambda>x. x * x) xs"

text \<open>\<^verbatim>\<open>np.mean(x)\<close>: the sum divided by the number of elements; on an empty array numpy
  divides zero by zero and returns not-a-number.\<close>

definition np_mean :: "real list \<Rightarrow> npfloat" where
  "np_mean xs = (if xs = [] then NaN else Finite (sum_list xs / real (length xs)))"

text \<open>\<^verbatim>\<open>a - b\<close> on one-dimensional arrays: element by element when the lengths agree; an
  array of length one is broadcast against the other; any other pair of lengths raises.\<close>

definition np_subtract :: "real list \<Rightarrow> real list \<Rightarrow> error + real list" where
  "np_subtract a b =
     (if length a = length b then Inr (map2 (\<lambda>x y. x - y) a b)
      else if length a = 1 then Inr (map (\<lambda>y. hd a - y) b)
      else if length b = 1 then Inr (map (\<lambda>x. x - hd b) a)
      else Inl BroadcastError)"

text \<open>\<^verbatim>\<open>x == y\<close> on scalars: not-a-number equals nothing, itself included.\<close>

fun np_equal :: "npfloat \<Rightarrow> npfloat \<Rightarrow> bool" where
  "np_equal NaN _ = False"
| "np_equal _ NaN = False"
| "np_equal x y = (x = y)"

text \<open>\<^verbatim>\<open>x / y\<close> on scalars. A zero divisor is the positive zero here: the divisors of the
  script are means of squares.\<close>

fun np_divide :: "npfloat \<Rightarrow> npfloat \<Rightarrow> npfloat" where
  "np_divide NaN _ = NaN"
| "np_divide _ NaN = NaN"
| "np_divide (Finite x) (Finite y) =
     (if y \<noteq> 0 then Finite (x / y)
      else if x = 0 then NaN
      else if 0 < x then PosInf else NegInf)"
| "np_divide (Finite x) PosInf = Finite 0"
| "np_divide (Finite x) NegInf = Finite 0"
| "np_divide PosInf (Finite y) = (if 0 \<le> y then PosInf else NegInf)"
| "np_divide NegInf (Finite y) = (if 0 \<le> y then NegInf else PosInf)"
| "np_divide PosInf PosInf = NaN"
| "np_divide PosInf NegInf = NaN"
| "np_divide NegInf PosInf = NaN"
| "np_divide NegInf NegInf = NaN"

text \<open>\<^verbatim>\<open>np.log10(x)\<close>: minus infinity at zero, not-a-number below zero.\<close>

fun np_log10 :: "npfloat \<Rightarrow> npfloat" where
  "np_log10 NaN = NaN"
| "np_log10 (Finite x) =
     (if 0 < x then Finite (log 10 x) else if x = 0 then NegInf else NaN)"
| "np_log10 PosInf = PosInf"
| "np_log10 NegInf = NaN"

text \<open>\<^verbatim>\<open>c * x\<close> for a finite Python number \<open>c\<close> and a scalar \<open>x\<close>.\<close>

fun np_scale :: "real \<Rightarrow> npfloat \<Rightarrow> npfloat" where
  "np_scale c NaN = NaN"
| "np_scale c (Finite x) = Finite (c * x)"
| "np_scale c PosInf = (if 0 < c then PosInf else if c < 0 then NegInf else NaN)"
| "np_scale c NegInf = (if 0 < c then NegInf else if c < 0 then PosInf else NaN)"

section \<open>The SNR of two signals\<close>

text \<open>
  \<^verbatim>\<open>
  def calculate_snr(original, compressed):
      signal_power = np.mean(np.square(original))
      noise_power = np.mean(np.square(original - compressed))
      if noise_power == 0:
          return np.inf  # infinite SNR for perfect reconstruction
      return 10 * np.log10(signal_power / noise_power)
  \<close>
  The two powers are named as in the source; the noise power can fail, in the
  subtraction.
\<close>

definition signal_power :: "real list \<Rightarrow> npfloat" where
  "signal_power original = np_mean (np_square original)"

definition noise_power :: "real list \<Rightarrow> real list \<Rightarrow> error + npfloat" where
  "noise_power original compressed =
     (case np_subtract original compressed of
        Inl e \<Rightarrow> Inl e
      | Inr d \<Rightarrow> Inr (np_mean (np_square d)))"

definition calculate_snr :: "real list \<Rightarrow> real list \<Rightarrow> error + npfloat" where
  "calculate_snr original compressed =
     (let sp = signal_power original in
      case noise_power original compressed of
        Inl e \<Rightarrow> Inl e
      | Inr np \<Rightarrow>
          if np_equal np (Finite 0) then Inr PosInf
          else Inr (np_scale 10 (np_log10 (np_divide sp np))))"

text \<open>The value the source returns for a perfect reconstruction is \<^verbatim>\<open>np.inf\<close>.\<close>

abbreviation sentinel :: npfloat where
  "sentinel \<equiv> PosInf"

text \<open>The arithmetic mean of a list of reals, for stating what the SNR is equal to.\<close>

definition mean :: "real list \<Rightarrow> real" where
  "mean xs = sum_list xs / real (length xs)"

subsection \<open>The same function over a store of arrays\<close>

text \<open>
  The arguments of \<^verbatim>\<open>calculate_snr\<close> are references to numpy arrays, and the caller
  passes the same array twice in \<^verbatim>\<open>calculate_snr(original_signal, original_signal)\<close>.
  To speak about what the function does to its arguments, the arrays live in a store: an
  address is an index into the list of all arrays allocated so far. \<^verbatim>\<open>np.square\<close> and
  the subtraction return a freshly allocated array; \<^verbatim>\<open>np.mean\<close> returns a scalar.
\<close>

type_synonym addr = nat
type_synonym store = "real list list"

definition alloc :: "store \<Rightarrow> real list \<Rightarrow> addr \<times> store" where
  "alloc h xs = (length h, h @ [xs])"

definition np_square_st :: "store \<Rightarrow> addr \<Rightarrow> addr \<times> store" where
  "np_square_st h p = alloc h (np_square (h ! p))"

definition np_subtract_st :: "store \<Rightarrow> addr \<Rightarrow> addr \<Rightarrow> error + addr \<times> store" where
  "np_subtract_st h p q =
     (case np_subtract (h ! p) (h ! q) of
        Inl e \<Rightarrow> Inl e
      | Inr d \<Rightarrow> Inr (alloc h d))"

definition np_mean_st :: "store \<Rightarrow> addr \<Rightarrow> npfloat" where
  "np_mean_st h p = np_mean (h ! p)"

text \<open>The result and the store the call leaves behind; an exception leaves the store as
  it was when the exception was raised.\<close>

definition calculate_snr_st :: "store \<Rightarrow> addr \<Rightarrow> addr \<Rightarrow> (error + npfloat) \<times> store" where
  "calculate_snr_st h original compressed =
     (let (sq, h1) = np_square_st h original;
          sp = np_mean_st h1 sq
      in case np_subtract_st h1 original compressed of
           Inl e \<Rightarrow> (Inl e, h1)
         | Inr (d, h2) \<Rightarrow>
             let (sq', h3) = np_square_st h2 d;
                 np = np_mean_st h3 sq'
             in if np_equal np (Finite 0) then (Inr PosInf, h3)
                else (Inr (np_scale 10 (np_log10 (np_divide sp np))), h3))"

section \<open>Rounded arithmetic\<close>

text \<open>
  The functions above compute with exact reals. numpy computes in a binary floating-point
  format (\<^verbatim>\<open>librosa.load\<close> returns 32-bit samples): every operation returns the exact result
  rounded to the format, which turns a result that is too small into zero and one that is
  too large into an infinity. This section is \<^verbatim>\<open>calculate_snr\<close> again with the rounding
  written out. The rounding is a parameter \<open>rnd\<close>, from the exact result of an operation to
  the value stored; \<open>rnd = Finite\<close> is no rounding. The elements of an array are scalars,
  since a difference or a square can overflow.

  Sum, difference, product and quotient are correctly rounded in IEEE 754; the logarithm
  is taken as correctly rounded as well. \<^verbatim>\<open>np.mean\<close> adds the elements and divides by their
  number, which is taken exact. The additions are done from left to right here, where
  numpy groups the elements of a long array in pairs: the grouping changes the rounding
  error of the sum. The runs evaluated below are on arrays of one or two elements, which
  have one order only; the general facts use of the sum only that a sum of zeros is zero
  and that a sum of scalars that are not negative is not negative. The product by ten is
  rounded to the same format.
\<close>

fun fl_add :: "(real \<Rightarrow> npfloat) \<Rightarrow> npfloat \<Rightarrow> npfloat \<Rightarrow> npfloat" where
  "fl_add rnd NaN _ = NaN"
| "fl_add rnd _ NaN = NaN"
| "fl_add rnd (Finite x) (Finite y) = rnd (x + y)"
| "fl_add rnd (Finite x) PosInf = PosInf"
| "fl_add rnd (Finite x) NegInf = NegInf"
| "fl_add rnd PosInf (Finite y) = PosInf"
| "fl_add rnd NegInf (Finite y) = NegInf"
| "fl_add rnd PosInf PosInf = PosInf"
| "fl_add rnd NegInf NegInf = NegInf"
| "fl_add rnd PosInf NegInf = NaN"
| "fl_add rnd NegInf PosInf = NaN"

fun fl_negate :: "npfloat \<Rightarrow> npfloat" where
  "fl_negate NaN = NaN"
| "fl_negate (Finite x) = Finite (- x)"
| "fl_negate PosInf = NegInf"
| "fl_negate NegInf = PosInf"

fun fl_minus :: "(real \<Rightarrow> npfloat) \<Rightarrow> npfloat \<Rightarrow> npfloat \<Rightarrow> npfloat" where
  "fl_minus rnd (Finite x) (Finite y) = rnd (x - y)"
| "fl_minus rnd u v = fl_add rnd u (fl_negate v)"

fun fl_multiply :: "(real \<Rightarrow> npfloat) \<Rightarrow> npfloat \<Rightarrow> npfloat \<Rightarrow> npfloat" where
  "fl_multiply rnd NaN _ = NaN"
| "fl_multiply rnd _ NaN = NaN"
| "fl_multiply rnd (Finite x) (Finite y) = rnd (x * y)"
| "fl_multiply rnd (Finite x) PosInf = (if 0 < x then PosInf else if x < 0 then NegInf else NaN)"
| "fl_multiply rnd (Finite x) NegInf = (if 0 < x then NegInf else if x < 0 then PosInf else NaN)"
| "fl_multiply rnd PosInf (Finite y) = (if 0 < y then PosInf else if y < 0 then NegInf else NaN)"
| "fl_multiply rnd NegInf (Finite y) = (if 0 < y then NegInf else if y < 0 then PosInf else NaN)"
| "fl_multiply rnd PosInf PosInf = PosInf"
| "fl_multiply rnd NegInf NegInf = PosInf"
| "fl_multiply rnd PosInf NegInf = NegInf"
| "fl_multiply rnd NegInf PosInf = NegInf"

fun fl_divide :: "(real \<Rightarrow> npfloat) \<Rightarrow> npfloat \<Rightarrow> npfloat \<Rightarrow> npfloat" where
  "fl_divide rnd NaN _ = NaN"
| "fl_divide rnd _ NaN = NaN"
| "fl_divide rnd (Finite x) (Finite y) =
     (if y \<noteq> 0 then rnd (x / y)
      else if x = 0 then NaN
      else if 0 < x then PosInf else NegInf)"
| "fl_divide rnd (Finite x) PosInf = Finite 0"
| "fl_divide rnd (Finite x) NegInf = Finite 0"
| "fl_divide rnd PosInf (Finite y) = (if 0 \<le> y then PosInf else NegInf)"
| "fl_divide rnd NegInf (Finite y) = (if 0 \<le> y then NegInf else PosInf)"
| "fl_divide rnd PosInf PosInf = NaN"
| "fl_divide rnd PosInf NegInf = NaN"
| "fl_divide rnd NegInf PosInf = NaN"
| "fl_divide rnd NegInf NegInf = NaN"

fun fl_log10 :: "(real \<Rightarrow> npfloat) \<Rightarrow> npfloat \<Rightarrow> npfloat" where
  "fl_log10 rnd NaN = NaN"
| "fl_log10 rnd (Finite x) =
     (if 0 < x then rnd (log 10 x) else if x = 0 then NegInf else NaN)"
| "fl_log10 rnd PosInf = PosInf"
| "fl_log10 rnd NegInf = NaN"

text \<open>\<^verbatim>\<open>np.square\<close>, the sum inside \<^verbatim>\<open>np.mean\<close>, \<^verbatim>\<open>np.mean\<close> and the subtraction of arrays.\<close>

definition fl_square :: "(real \<Rightarrow> npfloat) \<Rightarrow> npfloat list \<Rightarrow> npfloat list" where
  "fl_square rnd vs = map (\<lambda>v. fl_multiply rnd v v) vs"

definition fl_sum :: "(real \<Rightarrow> npfloat) \<Rightarrow> npfloat list \<Rightarrow> npfloat" where
  "fl_sum rnd vs = foldl (fl_add rnd) (Finite 0) vs"

definition fl_mean :: "(real \<Rightarrow> npfloat) \<Rightarrow> npfloat list \<Rightarrow> npfloat" where
  "fl_mean rnd vs = fl_divide rnd (fl_sum rnd vs) (Finite (real (length vs)))"

definition fl_subtract :: "(real \<Rightarrow> npfloat) \<Rightarrow> npfloat list \<Rightarrow> npfloat list \<Rightarrow> error + npfloat list" where
  "fl_subtract rnd a b =
     (if length a = length b then Inr (map2 (fl_minus rnd) a b)
      else if length a = 1 then Inr (map (\<lambda>y. fl_minus rnd (hd a) y) b)
      else if length b = 1 then Inr (map (\<lambda>x. fl_minus rnd x (hd b)) a)
      else Inl BroadcastError)"

text \<open>The function of the source, line by line as \<open>calculate_snr\<close> above; the arguments are
  arrays of finite samples.\<close>

definition signal_power_fl :: "(real \<Rightarrow> npfloat) \<Rightarrow> real list \<Rightarrow> npfloat" where
  "signal_power_fl rnd original = fl_mean rnd (fl_square rnd (map Finite original))"

definition noise_power_fl :: "(real \<Rightarrow> npfloat) \<Rightarrow> real list \<Rightarrow> real list \<Rightarrow> error + npfloat" where
  "noise_power_fl rnd original compressed =
     (case fl_subtract rnd (map Finite original) (map Finite compressed) of
        Inl e \<Rightarrow> Inl e
      | Inr d \<Rightarrow> Inr (fl_mean rnd (fl_square rnd d)))"

definition calculate_snr_fl :: "(real \<Rightarrow> npfloat) \<Rightarrow> real list \<Rightarrow> real list \<Rightarrow> error + npfloat" where
  "calculate_snr_fl rnd original compressed =
     (let sp = signal_power_fl rnd original in
      case noise_power_fl rnd original compressed of
        Inl e \<Rightarrow> Inl e
      | Inr np \<Rightarrow>
          if np_equal np (Finite 0) then Inr PosInf
          else Inr (fl_multiply rnd (Finite 10) (fl_log10 rnd (fl_divide rnd sp np))))"

subsection \<open>Binary formats\<close>

text \<open>
  A binary format has a precision \<open>p\<close> (the number of significant bits) and a range of
  exponents. Rounding to nearest, ties to even: a non-zero \<open>x\<close> lies in the binade of
  exponent \<open>\<lfloor>log 2 \<bar>x\<bar>\<rfloor>\<close>, or among the subnormal numbers when that is below the least
  exponent; the numbers of the format there are the multiples of a power of two; \<open>x\<close> goes
  to the nearest multiple, and to an infinity when the result is beyond the largest
  finite number. Zero carries no sign.
\<close>

record format =
  precision :: nat
  emin :: int
  emax :: int

definition binary32 :: format where
  "binary32 = \<lparr>precision = 24, emin = - 126, emax = 127\<rparr>"

definition binary64 :: format where
  "binary64 = \<lparr>precision = 53, emin = - 1022, emax = 1023\<rparr>"

definition round_half_even :: "real \<Rightarrow> int" where
  "round_half_even t =
     (let f = \<lfloor>t\<rfloor>; d = t - of_int f
      in if d < 1 / 2 then f else if 1 / 2 < d then f + 1 else if even f then f else f + 1)"

definition max_finite :: "format \<Rightarrow> real" where
  "max_finite fmt = (2 ^ precision fmt - 1) * 2 powr of_int (emax fmt - int (precision fmt) + 1)"

definition ulp_exponent :: "format \<Rightarrow> real \<Rightarrow> int" where
  "ulp_exponent fmt x = max \<lfloor>log 2 \<bar>x\<bar>\<rfloor> (emin fmt) - int (precision fmt) + 1"

definition round_ieee :: "format \<Rightarrow> real \<Rightarrow> npfloat" where
  "round_ieee fmt x =
     (if x = 0 then Finite 0
      else let q = 2 powr of_int (ulp_exponent fmt x);
               r = of_int (round_half_even (\<bar>x\<bar> / q)) * q
           in if max_finite fmt < r then (if 0 < x then PosInf else NegInf)
              else Finite (if 0 < x then r else - r))"

text \<open>
  What the theorems below use of a rounding: zero is kept, no rounding gives
  not-a-number, a result keeps its sign, and the format is wide enough for decibels: the
  logarithm of a positive number of the format, and ten times it, are finite.
\<close>

fun nonneg :: "npfloat \<Rightarrow> bool" where
  "nonneg (Finite r) = (0 \<le> r)"
| "nonneg PosInf = True"
| "nonneg NegInf = False"
| "nonneg NaN = False"

definition log_range :: "(real \<Rightarrow> npfloat) \<Rightarrow> bool" where
  "log_range rnd \<longleftrightarrow>
     (\<forall>x t. rnd x = Finite t \<and> 0 < t \<longrightarrow>
        (\<exists>l. rnd (log 10 t) = Finite l \<and> (\<exists>v. rnd (10 * l) = Finite v)))"

definition rounding :: "(real \<Rightarrow> npfloat) \<Rightarrow> bool" where
  "rounding rnd \<longleftrightarrow>
     rnd 0 = Finite 0
     \<and> (\<forall>x. rnd x \<noteq> NaN)
     \<and> (\<forall>x. 0 \<le> x \<longrightarrow> nonneg (rnd x))
     \<and> (\<forall>x. x \<le> 0 \<longrightarrow> nonneg (fl_negate (rnd x)))
     \<and> log_range rnd"

section \<open>The catalog and the processing loop\<close>

text \<open>
  An entry of the list \<^verbatim>\<open>files\<close> is a dictionary with six fixed keys; the keys are the
  field names. \<^verbatim>\<open>2 * 60 + 36\<close> and the like are written as the source writes them.
\<close>

record catalog_entry =
  original :: string
  compressed :: string
  algorithm :: string
  size_mb :: real
  duration_sec :: int
  bitrate_kbps :: int

definition files :: "catalog_entry list" where
  "files =
     [\<lparr>original = ''elliot-og.wav'', compressed = ''elliot-mp3.mp3'', algorithm = ''ELLIOT-MP3'',
       size_mb = 253 / 100, duration_sec = 2 * 60 + 36, bitrate_kbps = 128\<rparr>,
      \<lparr>original = ''flow-og.wav'', compressed = ''flow-aac.aac'', algorithm = ''FLOW-AAC'',
       size_mb = 314 / 100, duration_sec = 3 * 60 + 25, bitrate_kbps = 160\<rparr>,
      \<lparr>original = ''sinatra-og.wav'', compressed = ''sinatra-flac.flac'', algorithm = ''SINATRA-FLAC'',
       size_mb = 16, duration_sec = 3 * 60 + 14, bitrate_kbps = 1000\<rparr>,
      \<lparr>original = ''waltz-og.wav'', compressed = ''waltz-ogg.ogg'', algorithm = ''WALTZ-OGG'',
       size_mb = 260 / 100, duration_sec = 3 * 60 + 50, bitrate_kbps = 192\<rparr>]"

text \<open>The six module-level lists the loop appends to.\<close>

record dataset =
  compressed_snr_values :: "npfloat list"
  wav_snr_values :: "npfloat list"
  algorithm_labels :: "string list"
  file_sizes :: "real list"
  durations :: "real list"
  bit_rates :: "int list"

definition empty_dataset :: dataset where
  "empty_dataset =
     \<lparr>compressed_snr_values = [], wav_snr_values = [], algorithm_labels = [],
      file_sizes = [], durations = [], bit_rates = []\<rparr>"

text \<open>
  \<^verbatim>\<open>
  min_length = min(len(original_signal), len(compressed_signal))
  original_signal = original_signal[:min_length]
  compressed_signal = compressed_signal[:min_length]
  \<close>
  A slice \<^verbatim>\<open>x[:k]\<close> with \<open>0 \<le> k\<close> holds the first \<open>k\<close> elements of \<open>x\<close>, all of them when
  \<open>x\<close> is shorter.
\<close>

definition align_signals :: "real list \<Rightarrow> real list \<Rightarrow> real list \<times> real list" where
  "align_signals original_signal compressed_signal =
     (let min_length = min (length original_signal) (length compressed_signal)
      in (take min_length original_signal, take min_length compressed_signal))"

text \<open>
  The body of the loop. \<^verbatim>\<open>librosa.load\<close> is not part of the script: it is the parameter
  \<open>load\<close>, which returns the samples and the sample rate of a file or fails. An exception
  ends the run, so the body returns either the error or the six lists, each one longer.
  The two \<^verbatim>\<open>print\<close> calls write the two SNR values to the terminal and change no
  variable; they are left out. \<^verbatim>\<open>file["duration_sec"] / 60\<close> is Python's true division.
\<close>

definition process_file ::
  "(string \<Rightarrow> error + real list \<times> nat) \<Rightarrow> catalog_entry \<Rightarrow> dataset \<Rightarrow> error + dataset" where
  "process_file load file acc =
     (case load (original file) of
        Inl e \<Rightarrow> Inl e
      | Inr (original_signal, fs1) \<Rightarrow>
     (case load (compressed file) of
        Inl e \<Rightarrow> Inl e
      | Inr (compressed_signal, fs2) \<Rightarrow>
     (case align_signals original_signal compressed_signal of
        (original_signal, compressed_signal) \<Rightarrow>
     (case calculate_snr original_signal compressed_signal of
        Inl e \<Rightarrow> Inl e
      | Inr compressed_snr \<Rightarrow>
     (case calculate_snr original_signal original_signal of
        Inl e \<Rightarrow> Inl e
      | Inr wav_snr \<Rightarrow>
          Inr \<lparr>compressed_snr_values = compressed_snr_values acc @ [compressed_snr],
               wav_snr_values = wav_snr_values acc @ [wav_snr],
               algorithm_labels = algorithm_labels acc @ [algorithm file],
               file_sizes = file_sizes acc @ [size_mb file],
               durations = durations acc @ [real_of_int (duration_sec file) / 60],
               bit_rates = bit_rates acc @ [bitrate_kbps file]\<rparr>)))))"

text \<open>\<^verbatim>\<open>for i, file in enumerate(files, start=1)\<close>: the entries in order; the counter
  \<^verbatim>\<open>i\<close> is not used by the body.\<close>

fun process_files ::
  "(string \<Rightarrow> error + real list \<times> nat) \<Rightarrow> catalog_entry list \<Rightarrow> dataset \<Rightarrow> error + dataset" where
  "process_files load [] acc = Inr acc"
| "process_files load (file # rest) acc =
     (case process_file load file acc of
        Inl e \<Rightarrow> Inl e
      | Inr acc' \<Rightarrow> process_files load rest acc')"

text \<open>
  For stating what the loop produces: the samples a path loads to, whether a path loads
  to at least one sample, and the SNR of the compressed file of an entry, computed as the
  body of the loop computes it.
\<close>

definition loaded_samples :: "(string \<Rightarrow> error + real list \<times> nat) \<Rightarrow> string \<Rightarrow> real list" where
  "loaded_samples load path = (case load path of Inl e \<Rightarrow> [] | Inr (x, rate) \<Rightarrow> x)"

definition loads_nonempty :: "(string \<Rightarrow> error + real list \<times> nat) \<Rightarrow> string \<Rightarrow> bool" where
  "loads_nonempty load path = (case load path of Inl e \<Rightarrow> False | Inr (x, rate) \<Rightarrow> x \<noteq> [])"

definition entry_snr :: "(string \<Rightarrow> error + real list \<times> nat) \<Rightarrow> catalog_entry \<Rightarrow> error + npfloat" where
  "entry_snr load file =
     (case align_signals (loaded_samples load (original file))
                         (loaded_samples load (compressed file)) of
        (original_signal, compressed_signal) \<Rightarrow> calculate_snr original_signal compressed_signal)"

section \<open>Values for display\<close>

text \<open>
  \<^verbatim>\<open>
  compressed_visual_snr_values = [100 if v == np.inf else v for v in compressed_snr_values]
  wav_visual_snr_values = [100 if v == np.inf else v for v in wav_snr_values]
  \<close>
  One comprehension, applied to each of the two lists.
\<close>

definition visual_snr_values :: "npfloat list \<Rightarrow> npfloat list" where
  "visual_snr_values vs = map (\<lambda>v. if np_equal v PosInf then Finite 100 else v) vs"

text \<open>
  The label drawn over a bar, chosen from the value before substitution: the infinity
  glyph two units above the bar, in red, or the value formatted with two decimals half a
  unit above it. The formatted text stands for the value it formats.
\<close>

datatype bar_text = InfinityGlyph | TwoDecimals npfloat

record bar_label =
  offset :: real
  text_of :: bar_text
  red :: bool

definition label_of :: "npfloat \<Rightarrow> bar_label" where
  "label_of v =
     (if np_equal v PosInf then \<lparr>offset = 2, text_of = InfinityGlyph, red = True\<rparr>
      else \<lparr>offset = 1 / 2, text_of = TwoDecimals v, red = False\<rparr>)"

text \<open>The bars of a chart: the height drawn and the label, in the order of the values.\<close>

definition bars :: "npfloat list \<Rightarrow> (npfloat \<times> bar_label) list" where
  "bars vs = zip (visual_snr_values vs) (map label_of vs)"

section \<open>Facts about the arithmetic\<close>

lemma sum_list_squares_nonneg: "0 \<le> sum_list (map (\<lambda>x. x * x) (xs :: real list))"
  by (induction xs) simp_all

lemma sum_list_squares_zero_iff:
  "sum_list (map (\<lambda>x. x * x) (xs :: real list)) = 0 \<longleftrightarrow> (\<forall>x \<in> set xs. x = 0)"
proof (induction xs)
  case Nil
  show ?case by simp
next
  case (Cons x xs)
  have nn: "0 \<le> sum_list (map (\<lambda>x. x * x) xs)" by (rule sum_list_squares_nonneg)
  have sq: "0 \<le> x * x" by simp
  have "x * x + sum_list (map (\<lambda>x. x * x) xs) = 0
        \<longleftrightarrow> x * x = 0 \<and> sum_list (map (\<lambda>x. x * x) xs) = 0"
    using sq nn by (rule add_nonneg_eq_0_iff)
  with Cons.IH show ?case by simp
qed

lemma map2_diff_zero_iff:
  "length a = length b \<Longrightarrow>
   (\<forall>d \<in> set (map2 (\<lambda>x y. x - y) a b). d = (0::real)) \<longleftrightarrow> a = b"
proof (induction a b rule: list_induct2)
  case Nil
  show ?case by simp
next
  case (Cons x xs y ys)
  then show ?case by auto
qed

lemma noise_power_equal_length:
  "length a = length b \<Longrightarrow>
   noise_power a b = Inr (np_mean (np_square (map2 (\<lambda>x y. x - y) a b)))"
  by (simp add: noise_power_def np_subtract_def)

lemma noise_power_zero_iff:
  assumes "length a = length b" and "a \<noteq> []"
  shows "noise_power a b = Inr (Finite 0) \<longleftrightarrow> a = b"
proof -
  define d where "d = map2 (\<lambda>x y. x - y) a b"
  have len: "length d = length a" using assms by (simp add: d_def)
  then have ne: "d \<noteq> []" using assms(2) by auto
  have pos: "real (length d) \<noteq> 0" using ne by simp
  have "noise_power a b = Inr (np_mean (np_square d))"
    using assms(1) by (simp add: noise_power_equal_length d_def)
  then have "noise_power a b = Inr (Finite 0)
        \<longleftrightarrow> sum_list (map (\<lambda>x. x * x) d) / real (length d) = 0"
    using ne by (simp add: np_mean_def np_square_def)
  also have "\<dots> \<longleftrightarrow> sum_list (map (\<lambda>x. x * x) d) = 0"
    using pos by simp
  also have "\<dots> \<longleftrightarrow> (\<forall>x \<in> set d. x = 0)" by (rule sum_list_squares_zero_iff)
  also have "\<dots> \<longleftrightarrow> a = b"
    unfolding d_def using assms(1) by (rule map2_diff_zero_iff)
  finally show ?thesis .
qed

lemma np_mean_nonempty: "xs \<noteq> [] \<Longrightarrow> np_mean xs = Finite (mean xs)"
  by (simp add: np_mean_def mean_def)

lemma mean_square_nonneg: "0 \<le> mean (np_square xs)"
  by (simp add: mean_def np_square_def sum_list_squares_nonneg)


lemma signal_power_nonempty: "a \<noteq> [] \<Longrightarrow> signal_power a = Finite (mean (np_square a))"
  by (simp add: signal_power_def np_mean_nonempty np_square_def)

lemma noise_power_nonempty:
  assumes "length a = length b" and "a \<noteq> []"
  shows "noise_power a b = Inr (Finite (mean (np_square (map2 (\<lambda>x y. x - y) a b))))"
proof -
  have "length (map2 (\<lambda>x y. x - y) a b) = length a" using assms(1) by simp
  then have "map2 (\<lambda>x y. x - y) a b \<noteq> []" using assms(2) by auto
  then have "np_square (map2 (\<lambda>x y. x - y) a b) \<noteq> []" by (simp add: np_square_def)
  then show ?thesis
    using assms(1) by (simp add: noise_power_equal_length np_mean_nonempty)
qed

lemma calculate_snr_equal_length:
  assumes "length a = length b" and "a \<noteq> []"
  defines "s \<equiv> mean (np_square a)"
      and "n \<equiv> mean (np_square (map2 (\<lambda>x y. x - y) a b))"
  shows "calculate_snr a b =
           Inr (if n = 0 then PosInf
                else if s = 0 then NegInf
                else Finite (10 * log 10 (s / n)))"
proof -
  have s0: "0 \<le> s" and n0: "0 \<le> n" by (simp_all add: s_def n_def mean_square_nonneg)
  have sp: "signal_power a = Finite s" using assms(2) by (simp add: signal_power_nonempty s_def)
  have np: "noise_power a b = Inr (Finite n)"
    using assms(1,2) by (simp add: noise_power_nonempty n_def)
  show ?thesis
  proof (cases "n = 0")
    case True
    then show ?thesis by (simp add: calculate_snr_def sp np)
  next
    case False
    then have "0 < n" using n0 by simp
    then show ?thesis using s0 by (cases "s = 0") (simp_all add: calculate_snr_def sp np)
  qed
qed


lemmas snr_eval = calculate_snr_def noise_power_def signal_power_def np_subtract_def
  np_mean_def np_square_def



lemma sum_list_squares_scale:
  "sum_list (map (\<lambda>x. x * x) (map ((*) c) xs)) = c * c * sum_list (map (\<lambda>x. x * x) (xs :: real list))"
  by (induction xs) (simp_all add: algebra_simps)

lemma mean_square_scale:
  "mean (np_square (map ((*) c) xs)) = c * c * mean (np_square xs)"
  unfolding mean_def np_square_def sum_list_squares_scale by simp

lemma map2_diff_scale:
  "map2 (\<lambda>x y. x - y) (map ((*) c) a) (map ((*) c) b)
     = map ((*) (c :: real)) (map2 (\<lambda>x y. x - y) a b)"
proof (induction a arbitrary: b)
  case Nil
  show ?case by simp
next
  case (Cons x xs)
  show ?case
  proof (cases b)
    case Nil
    then show ?thesis by simp
  next
    case (Cons y ys)
    then show ?thesis using Cons.IH [of ys] by (simp add: right_diff_distrib)
  qed
qed

lemma align_signals_nonempty:
  assumes "x \<noteq> []" and "y \<noteq> []" and "align_signals x y = (x', y')"
  shows "length x' = length y'" and "x' \<noteq> []"
proof -
  have m: "0 < min (length x) (length y)" using assms(1,2) by simp
  have x': "x' = take (min (length x) (length y)) x"
    and y': "y' = take (min (length x) (length y)) y"
    using assms(3) by (simp_all add: align_signals_def Let_def)
  show "length x' = length y'" by (simp add: x' y')
  have "length x' = min (length x) (length y)" by (simp add: x')
  with m have "0 < length x'" by (simp only:)
  then show "x' \<noteq> []" by simp
qed

lemma calculate_snr_returns:
  assumes "length a = length b" and "a \<noteq> []"
  shows "\<exists>v. calculate_snr a b = Inr v"
  by (simp add: calculate_snr_equal_length [OF assms])

lemma calculate_snr_identical: "a \<noteq> [] \<Longrightarrow> calculate_snr a a = Inr sentinel"
  using noise_power_zero_iff [of a a] by (simp add: calculate_snr_def)

lemma loads_nonempty_load:
  assumes "loads_nonempty load path"
  shows "\<exists>rate. load path = Inr (loaded_samples load path, rate)" and "loaded_samples load path \<noteq> []"
  using assms by (auto simp add: loads_nonempty_def loaded_samples_def split: sum.splits prod.splits)

lemma process_file_loaded:
  assumes o: "loads_nonempty load (original file)"
    and c: "loads_nonempty load (compressed file)"
  shows "\<exists>v. entry_snr load file = Inr v
           \<and> process_file load file acc =
               Inr \<lparr>compressed_snr_values = compressed_snr_values acc @ [v],
                    wav_snr_values = wav_snr_values acc @ [sentinel],
                    algorithm_labels = algorithm_labels acc @ [algorithm file],
                    file_sizes = file_sizes acc @ [size_mb file],
                    durations = durations acc @ [real_of_int (duration_sec file) / 60],
                    bit_rates = bit_rates acc @ [bitrate_kbps file]\<rparr>"
proof -
  obtain r1 where lo: "load (original file) = Inr (loaded_samples load (original file), r1)"
    using loads_nonempty_load(1) [OF o] by blast
  obtain r2 where lc: "load (compressed file) = Inr (loaded_samples load (compressed file), r2)"
    using loads_nonempty_load(1) [OF c] by blast
  obtain x y where al:
    "align_signals (loaded_samples load (original file)) (loaded_samples load (compressed file)) = (x, y)"
    by (cases "align_signals (loaded_samples load (original file)) (loaded_samples load (compressed file))")
  have len: "length x = length y" and x: "x \<noteq> []"
    using align_signals_nonempty [OF loads_nonempty_load(2) [OF o] loads_nonempty_load(2) [OF c] al]
    by simp_all
  obtain v where v: "calculate_snr x y = Inr v"
    using calculate_snr_returns [OF len x] by blast
  have w: "calculate_snr x x = Inr sentinel"
    using x by (rule calculate_snr_identical)
  have "entry_snr load file = Inr v" by (simp add: entry_snr_def al v)
  moreover have "process_file load file acc =
               Inr \<lparr>compressed_snr_values = compressed_snr_values acc @ [v],
                    wav_snr_values = wav_snr_values acc @ [sentinel],
                    algorithm_labels = algorithm_labels acc @ [algorithm file],
                    file_sizes = file_sizes acc @ [size_mb file],
                    durations = durations acc @ [real_of_int (duration_sec file) / 60],
                    bit_rates = bit_rates acc @ [bitrate_kbps file]\<rparr>"
    unfolding process_file_def by (subst lo, subst lc) (simp add: al v w)
  ultimately show ?thesis by blast
qed

lemma process_files_append:
  assumes "\<forall>file \<in> set fs. loads_nonempty load (original file)
                          \<and> loads_nonempty load (compressed file)"
  shows "\<exists>d. process_files load fs acc = Inr d
     \<and> map Inr (compressed_snr_values d)
          = map Inr (compressed_snr_values acc) @ map (entry_snr load) fs
     \<and> wav_snr_values d = wav_snr_values acc @ replicate (length fs) sentinel
     \<and> algorithm_labels d = algorithm_labels acc @ map algorithm fs
     \<and> file_sizes d = file_sizes acc @ map size_mb fs
     \<and> durations d = durations acc @ map (\<lambda>file. real_of_int (duration_sec file) / 60) fs
     \<and> bit_rates d = bit_rates acc @ map bitrate_kbps fs"
  using assms
proof (induction fs arbitrary: acc)
  case Nil
  show ?case by simp
next
  case (Cons f rest)
  from Cons.prems have o: "loads_nonempty load (original f)"
    and c: "loads_nonempty load (compressed f)"
    by simp_all
  from process_file_loaded [OF o c, of acc] obtain v acc' where
    v: "entry_snr load f = Inr v" and
    step: "process_file load f acc = Inr acc'" and
    acc': "acc' = \<lparr>compressed_snr_values = compressed_snr_values acc @ [v],
                    wav_snr_values = wav_snr_values acc @ [sentinel],
                    algorithm_labels = algorithm_labels acc @ [algorithm f],
                    file_sizes = file_sizes acc @ [size_mb f],
                    durations = durations acc @ [real_of_int (duration_sec f) / 60],
                    bit_rates = bit_rates acc @ [bitrate_kbps f]\<rparr>"
    by blast
  from Cons.prems have rest: "\<forall>file \<in> set rest. loads_nonempty load (original file)
                          \<and> loads_nonempty load (compressed file)"
    by simp
  from Cons.IH [OF rest, of acc'] obtain d where
    d: "process_files load rest acc' = Inr d" and
    f1: "map Inr (compressed_snr_values d)
          = map Inr (compressed_snr_values acc') @ map (entry_snr load) rest" and
    f2: "wav_snr_values d = wav_snr_values acc' @ replicate (length rest) sentinel" and
    f3: "algorithm_labels d = algorithm_labels acc' @ map algorithm rest" and
    f4: "file_sizes d = file_sizes acc' @ map size_mb rest" and
    f5: "durations d = durations acc' @ map (\<lambda>file. real_of_int (duration_sec file) / 60) rest" and
    f6: "bit_rates d = bit_rates acc' @ map bitrate_kbps rest"
    by blast
  have "process_files load (f # rest) acc = Inr d" by (simp add: step d)
  moreover have "map Inr (compressed_snr_values d)
          = map Inr (compressed_snr_values acc) @ map (entry_snr load) (f # rest)"
    by (simp add: f1 acc' v)
  moreover have "wav_snr_values d = wav_snr_values acc @ replicate (length (f # rest)) sentinel"
    by (simp add: f2 acc' replicate_app_Cons_same)
  moreover have "algorithm_labels d = algorithm_labels acc @ map algorithm (f # rest)"
    by (simp add: f3 acc')
  moreover have "file_sizes d = file_sizes acc @ map size_mb (f # rest)"
    by (simp add: f4 acc')
  moreover have "durations d = durations acc @ map (\<lambda>file. real_of_int (duration_sec file) / 60) (f # rest)"
    by (simp add: f5 acc')
  moreover have "bit_rates d = bit_rates acc @ map bitrate_kbps (f # rest)"
    by (simp add: f6 acc')
  ultimately show ?case by blast
qed

lemma np_equal_PosInf [simp]: "np_equal v PosInf \<longleftrightarrow> v = PosInf"
  by (cases v) simp_all

lemma calculate_snr_st_result:
  assumes "p < length h" and "q < length h"
  shows "fst (calculate_snr_st h p q) = calculate_snr (h ! p) (h ! q)"
proof (cases "np_subtract (h ! p) (h ! q)")
  case (Inl e)
  then show ?thesis
    using assms
    by (simp add: calculate_snr_st_def np_square_st_def np_subtract_st_def np_mean_st_def
        alloc_def calculate_snr_def noise_power_def signal_power_def nth_append Let_def)
next
  case (Inr d)
  then show ?thesis
    using assms
    by (simp add: calculate_snr_st_def np_square_st_def np_subtract_st_def np_mean_st_def
        alloc_def calculate_snr_def noise_power_def signal_power_def nth_append Let_def)
qed

lemma calculate_snr_st_store:
  "prefix h (snd (calculate_snr_st h p q))"
proof (cases "np_subtract ((h @ [np_square (h ! p)]) ! p) ((h @ [np_square (h ! p)]) ! q)")
  case (Inl e)
  then show ?thesis
    by (simp add: calculate_snr_st_def np_square_st_def np_subtract_st_def np_mean_st_def
        alloc_def Let_def)
next
  case (Inr d)
  then show ?thesis
    by (simp add: calculate_snr_st_def np_square_st_def np_subtract_st_def np_mean_st_def
        alloc_def Let_def)
qed

section \<open>Facts about the rounded arithmetic\<close>

lemma rounding_zero: "rounding rnd \<Longrightarrow> rnd 0 = Finite 0"
  by (simp add: rounding_def)

lemma rounding_nonneg: "rounding rnd \<Longrightarrow> 0 \<le> x \<Longrightarrow> nonneg (rnd x)"
  by (simp add: rounding_def)

lemma rounding_not_NaN: "rounding rnd \<Longrightarrow> rnd x \<noteq> NaN"
  by (simp add: rounding_def)

lemma nonneg_cases:
  assumes "nonneg v"
  obtains r where "v = Finite r" and "0 \<le> r" | "v = PosInf"
  using assms by (cases v) simp_all

lemma nonneg_add:
  assumes "rounding rnd" and "nonneg u" and "nonneg v"
  shows "nonneg (fl_add rnd u v)"
  using assms(2,3)
  by (cases u; cases v) (simp_all add: rounding_nonneg [OF assms(1)])

lemma nonneg_foldl:
  assumes "rounding rnd" and "\<forall>v \<in> set vs. nonneg v" and "nonneg acc"
  shows "nonneg (foldl (fl_add rnd) acc vs)"
  using assms(2,3)
  by (induction vs arbitrary: acc) (simp_all add: nonneg_add [OF assms(1)])

lemma nonneg_sum:
  assumes "rounding rnd" and "\<forall>v \<in> set vs. nonneg v"
  shows "nonneg (fl_sum rnd vs)"
  unfolding fl_sum_def using assms by (intro nonneg_foldl) simp_all

lemma nonneg_mean:
  assumes "rounding rnd" and "\<forall>v \<in> set vs. nonneg v" and "vs \<noteq> []"
  shows "nonneg (fl_mean rnd vs)"
proof -
  have n: "0 < real (length vs)" using assms(3) by simp
  from nonneg_sum [OF assms(1,2)] show ?thesis
  proof (cases rule: nonneg_cases)
    case (1 r)
    then have "0 \<le> r / real (length vs)" using n by simp
    then show ?thesis
      using 1 n by (simp add: fl_mean_def rounding_nonneg [OF assms(1)])
  next
    case 2
    then show ?thesis by (simp add: fl_mean_def)
  qed
qed

lemma nonneg_square:
  assumes "rounding rnd" and "v \<noteq> NaN"
  shows "nonneg (fl_multiply rnd v v)"
  using assms(2) by (cases v) (simp_all add: rounding_nonneg [OF assms(1)])

lemma fl_minus_not_NaN:
  assumes "rounding rnd"
  shows "fl_minus rnd (Finite x) (Finite y) \<noteq> NaN"
  by (simp add: rounding_not_NaN [OF assms])

lemma fl_square_nonneg:
  assumes "rounding rnd" and "\<forall>v \<in> set vs. v \<noteq> NaN"
  shows "\<forall>w \<in> set (fl_square rnd vs). nonneg w"
proof
  fix w
  assume "w \<in> set (fl_square rnd vs)"
  then obtain v where v: "v \<in> set vs" and w: "w = fl_multiply rnd v v"
    by (auto simp add: fl_square_def)
  from v assms(2) have "v \<noteq> NaN" by blast
  then show "nonneg w" unfolding w by (rule nonneg_square [OF assms(1)])
qed


lemma fl_subtract_equal_length:
  "length a = length b \<Longrightarrow>
   fl_subtract rnd (map Finite a) (map Finite b) = Inr (map2 (\<lambda>x y. rnd (x - y)) a b)"
  by (auto simp add: fl_subtract_def zip_map_map)

lemma noise_power_fl_equal_length:
  "length a = length b \<Longrightarrow>
   noise_power_fl rnd a b = Inr (fl_mean rnd (fl_square rnd (map2 (\<lambda>x y. rnd (x - y)) a b)))"
  by (simp add: noise_power_fl_def fl_subtract_equal_length)

lemma noise_power_fl_nonneg:
  assumes "rounding rnd" and "length a = length b" and "a \<noteq> []"
  shows "nonneg (fl_mean rnd (fl_square rnd (map2 (\<lambda>x y. rnd (x - y)) a b)))"
proof -
  define d where "d = map2 (\<lambda>x y. rnd (x - y)) a b"
  have "\<forall>v \<in> set d. v \<noteq> NaN"
    unfolding d_def by (auto simp add: rounding_not_NaN [OF assms(1)])
  then have sq: "\<forall>w \<in> set (fl_square rnd d). nonneg w"
    by (rule fl_square_nonneg [OF assms(1)])
  have "length d = length a" using assms(2) by (simp add: d_def)
  then have "d \<noteq> []" using assms(3) by auto
  then have ne: "fl_square rnd d \<noteq> []" by (simp add: fl_square_def)
  show ?thesis
    unfolding d_def [symmetric] using assms(1) sq ne by (rule nonneg_mean)
qed


lemma fl_sum_zeros:
  assumes "rounding rnd" and "\<forall>v \<in> set vs. v = Finite 0"
  shows "fl_sum rnd vs = Finite 0"
proof -
  have "foldl (fl_add rnd) (Finite 0) vs = Finite 0"
    using assms(2) by (induction vs) (simp_all add: rounding_zero [OF assms(1)])
  then show ?thesis by (simp add: fl_sum_def)
qed

lemma fl_mean_zeros:
  assumes "rounding rnd" and "\<forall>v \<in> set vs. v = Finite 0" and "vs \<noteq> []"
  shows "fl_mean rnd vs = Finite 0"
  using assms(3)
  by (simp add: fl_mean_def fl_sum_zeros [OF assms(1,2)] rounding_zero [OF assms(1)])

lemma signal_power_fl_zeros:
  assumes "rounding rnd" and "a \<noteq> []" and "\<forall>x \<in> set a. x = 0"
  shows "signal_power_fl rnd a = Finite 0"
proof -
  have "\<forall>v \<in> set (fl_square rnd (map Finite a)). v = Finite 0"
    using assms(3) by (auto simp add: fl_square_def rounding_zero [OF assms(1)])
  moreover have "fl_square rnd (map Finite a) \<noteq> []"
    using assms(2) by (simp add: fl_square_def)
  ultimately show ?thesis
    unfolding signal_power_fl_def by (rule fl_mean_zeros [OF assms(1)])
qed

text \<open>Comparing a sequence to itself gives the sentinel with any rounding: each difference
  is exactly zero.\<close>

lemma calculate_snr_fl_self:
  assumes "rounding rnd" and "a \<noteq> []"
  shows "calculate_snr_fl rnd a a = Inr sentinel"
proof -
  define d where "d = map2 (\<lambda>x y. rnd (x - y)) a a"
  have "\<forall>v \<in> set d. v = Finite 0"
    by (auto simp add: d_def set_zip rounding_zero [OF assms(1)])
  then have sq: "\<forall>v \<in> set (fl_square rnd d). v = Finite 0"
    by (auto simp add: fl_square_def rounding_zero [OF assms(1)])
  have "length d = length a" by (simp add: d_def)
  then have "d \<noteq> []" using assms(2) by auto
  then have ne: "fl_square rnd d \<noteq> []" by (simp add: fl_square_def)
  have "fl_mean rnd (fl_square rnd d) = Finite 0"
    using assms(1) sq ne by (rule fl_mean_zeros)
  then have "noise_power_fl rnd a a = Inr (Finite 0)"
    by (simp add: noise_power_fl_equal_length d_def)
  then show ?thesis by (simp add: calculate_snr_fl_def)
qed

lemma calculate_snr_fl_branches:
  assumes "noise_power_fl rnd a b = Inr np"
  shows "calculate_snr_fl rnd a b =
           (if np_equal np (Finite 0) then Inr PosInf
            else Inr (fl_multiply rnd (Finite 10)
                       (fl_log10 rnd (fl_divide rnd (signal_power_fl rnd a) np))))"
  by (simp add: calculate_snr_fl_def assms)

lemma nonzero_power_cases:
  assumes "nonneg np" and "\<not> np_equal np (Finite 0)"
  obtains n where "np = Finite n" and "0 < n" | "np = PosInf"
  using assms by (cases np) (auto simp add: less_le)



lemma calculate_snr_fl_zero_reference:
  assumes "rounding rnd" and "length a = length b" and "a \<noteq> []"
    and "\<forall>x \<in> set a. x = 0"
    and "noise_power_fl rnd a b = Inr np" and "\<not> np_equal np (Finite 0)"
  shows "calculate_snr_fl rnd a b = Inr NegInf"
proof -
  have sp: "signal_power_fl rnd a = Finite 0"
    using assms(1,3,4) by (rule signal_power_fl_zeros)
  have "nonneg np"
    using noise_power_fl_nonneg [OF assms(1,2,3)] assms(5)
    by (simp add: noise_power_fl_equal_length [OF assms(2)])
  then have "fl_divide rnd (Finite 0) np = Finite 0"
    using assms(6)
    by (cases rule: nonzero_power_cases) (simp_all add: rounding_zero [OF assms(1)])
  then show ?thesis
    using assms(6) by (simp add: calculate_snr_fl_branches [OF assms(5)] sp)
qed



subsection \<open>Rounding to a binary format\<close>

lemma round_half_even_of_int: "round_half_even (of_int n) = n"
  by (simp add: round_half_even_def)

lemma round_half_even_nonneg: "0 \<le> t \<Longrightarrow> 0 \<le> round_half_even t"
  by (auto simp add: round_half_even_def Let_def)

lemma round_half_even_le: "t \<le> of_int n \<Longrightarrow> round_half_even t \<le> n"
proof -
  assume t: "t \<le> of_int n"
  have f: "\<lfloor>t\<rfloor> \<le> n" using t by (simp add: floor_le_iff)
  show ?thesis
  proof (cases "\<lfloor>t\<rfloor> = n")
    case True
    then have "of_int n \<le> t" using of_int_floor_le [of t] by simp
    with t have "t = of_int n" by simp
    then show ?thesis by (simp add: round_half_even_of_int)
  next
    case False
    with f have "\<lfloor>t\<rfloor> + 1 \<le> n" by simp
    then show ?thesis by (auto simp add: round_half_even_def Let_def)
  qed
qed

lemma round_half_even_ge: "of_int n \<le> t \<Longrightarrow> n \<le> round_half_even t"
proof -
  assume "of_int n \<le> t"
  then have "n \<le> \<lfloor>t\<rfloor>" by (simp add: le_floor_iff)
  then show ?thesis by (auto simp add: round_half_even_def Let_def)
qed

lemma round_half_even_small: "0 \<le> t \<Longrightarrow> t \<le> 1 / 2 \<Longrightarrow> round_half_even t = 0"
proof -
  assume t: "0 \<le> t" "t \<le> 1 / 2"
  then have "\<lfloor>t\<rfloor> = 0" by (simp add: floor_eq_iff)
  then show ?thesis using t by (simp add: round_half_even_def)
qed

lemma floor_log2_bounds:
  assumes "0 < x"
  shows "2 powr of_int \<lfloor>log 2 x\<rfloor> \<le> x" and "x < 2 powr of_int (\<lfloor>log 2 x\<rfloor> + 1)"
proof -
  have x: "2 powr log 2 x = x" using assms by simp
  have "of_int \<lfloor>log 2 x\<rfloor> \<le> log 2 x" by simp
  then have "2 powr of_int \<lfloor>log 2 x\<rfloor> \<le> 2 powr log 2 x" by simp
  then show "2 powr of_int \<lfloor>log 2 x\<rfloor> \<le> x" using x by simp
  have "log 2 x < of_int (\<lfloor>log 2 x\<rfloor> + 1)" by linarith
  then have "2 powr log 2 x < 2 powr of_int (\<lfloor>log 2 x\<rfloor> + 1)" by simp
  then show "x < 2 powr of_int (\<lfloor>log 2 x\<rfloor> + 1)" using x by simp
qed

lemma floor_log2_powr: "\<lfloor>log 2 (2 powr of_int k)\<rfloor> = k"
  by simp

lemma max_finite_bounds:
  assumes "1 \<le> precision fmt"
  shows "2 powr of_int (emax fmt) \<le> max_finite fmt"
    and "max_finite fmt < 2 powr of_int (emax fmt + 1)"
proof -
  let ?p = "precision fmt"
  let ?w = "2 powr of_int (emax fmt - int ?p + 1) :: real"
  have w: "0 < ?w" by simp
  have split: "(2::real) powr of_int (emax fmt + 1) = 2 ^ ?p * ?w"
  proof -
    have "(2::real) powr of_int (emax fmt + 1) = 2 powr (real ?p + of_int (emax fmt - int ?p + 1))"
      by simp
    also have "\<dots> = 2 powr real ?p * ?w" by (rule powr_add)
    also have "\<dots> = 2 ^ ?p * ?w" by (simp add: powr_realpow)
    finally show ?thesis .
  qed
  have "(2 ^ ?p - 1) * ?w < 2 ^ ?p * ?w" using w by simp
  then show "max_finite fmt < 2 powr of_int (emax fmt + 1)"
    by (simp only: max_finite_def split)
  have half: "(2::real) powr of_int (emax fmt) = 2 ^ ?p * ?w / 2"
  proof -
    have "(2::real) powr of_int (emax fmt) = 2 powr (of_int (emax fmt + 1) - 1)" by simp
    also have "\<dots> = 2 powr of_int (emax fmt + 1) / 2" by (simp only: powr_diff) simp
    finally show ?thesis by (simp only: split)
  qed
  have "(2::real) ^ 1 \<le> 2 ^ ?p" using assms by (intro power_increasing) simp_all
  then have "(2::real) \<le> 2 ^ ?p" by simp
  then have "(2::real) ^ ?p / 2 \<le> 2 ^ ?p - 1" by simp
  then have "2 ^ ?p / 2 * ?w \<le> (2 ^ ?p - 1) * ?w" using w by (simp only: mult_le_cancel_right) simp
  then show "2 powr of_int (emax fmt) \<le> max_finite fmt"
    by (simp add: max_finite_def half)
qed


lemma round_ieee_zero: "round_ieee fmt 0 = Finite 0"
  by (simp add: round_ieee_def)

lemma round_ieee_not_NaN: "round_ieee fmt x \<noteq> NaN"
  by (simp add: round_ieee_def Let_def)

lemma round_ieee_negate: "round_ieee fmt (- x) = fl_negate (round_ieee fmt x)"
  by (simp add: round_ieee_def ulp_exponent_def Let_def)

lemma round_ieee_pos:
  assumes "0 < x"
  shows "round_ieee fmt x =
    (if max_finite fmt
          < of_int (round_half_even (x / 2 powr of_int (ulp_exponent fmt x)))
              * 2 powr of_int (ulp_exponent fmt x)
     then PosInf
     else Finite (of_int (round_half_even (x / 2 powr of_int (ulp_exponent fmt x)))
                   * 2 powr of_int (ulp_exponent fmt x)))"
  using assms by (simp add: round_ieee_def Let_def)

lemma round_ieee_nonneg:
  assumes "0 \<le> x"
  shows "nonneg (round_ieee fmt x)"
proof (cases "x = 0")
  case True
  then show ?thesis by (simp add: round_ieee_zero)
next
  case False
  then have x: "0 < x" using assms by simp
  have "0 \<le> x / 2 powr of_int (ulp_exponent fmt x)" using x by simp
  then have "0 \<le> round_half_even (x / 2 powr of_int (ulp_exponent fmt x))"
    by (rule round_half_even_nonneg)
  then show ?thesis by (simp add: round_ieee_pos [OF x])
qed

lemma ulp_exponent_ge: "emin fmt - int (precision fmt) + 1 \<le> ulp_exponent fmt x"
  by (simp add: ulp_exponent_def)

lemma round_ieee_powr2:
  assumes p: "1 \<le> precision fmt" and k: "emin fmt - int (precision fmt) + 1 \<le> k"
  shows "round_ieee fmt (2 powr of_int k) =
           (if emax fmt < k then PosInf else Finite (2 powr of_int k))"
proof -
  let ?x = "2 powr of_int k :: real"
  let ?u = "ulp_exponent fmt ?x"
  have x: "0 < ?x" by simp
  have u: "?u = max k (emin fmt) - int (precision fmt) + 1"
    by (simp add: ulp_exponent_def)
  have d: "0 \<le> k - ?u" using p k by (simp add: u)
  have "?x / 2 powr of_int ?u = 2 powr (of_int k - of_int ?u)"
    by (simp only: powr_diff)
  also have "\<dots> = 2 powr real (nat (k - ?u))" using d by simp
  also have "\<dots> = 2 ^ nat (k - ?u)" by (simp add: powr_realpow)
  also have "\<dots> = of_int (2 ^ nat (k - ?u))" by simp
  finally have quot: "?x / 2 powr of_int ?u = of_int (2 ^ nat (k - ?u))" .
  have "of_int (round_half_even (?x / 2 powr of_int ?u)) * 2 powr of_int ?u
          = (?x / 2 powr of_int ?u) * 2 powr of_int ?u"
    by (simp only: quot round_half_even_of_int)
  also have "\<dots> = ?x" by simp
  finally have r: "of_int (round_half_even (?x / 2 powr of_int ?u)) * 2 powr of_int ?u = ?x" .
  have over: "max_finite fmt < ?x \<longleftrightarrow> emax fmt < k"
  proof
    assume "max_finite fmt < ?x"
    with max_finite_bounds(1) [OF p] have "2 powr of_int (emax fmt) < ?x"
      by (rule le_less_trans)
    then show "emax fmt < k" by simp
  next
    assume "emax fmt < k"
    then have "2 powr of_int (emax fmt + 1) \<le> ?x" by simp
    with max_finite_bounds(2) [OF p] show "max_finite fmt < ?x"
      by (rule less_le_trans)
  qed
  show ?thesis
    by (simp only: round_ieee_pos [OF x] r over)
qed

lemma round_ieee_underflow:
  assumes "0 < x" and "x \<le> 2 powr of_int (emin fmt - int (precision fmt))"
  shows "round_ieee fmt x = Finite 0"
proof -
  have "x \<le> 2 powr of_int (emin fmt)"
  proof -
    have "2 powr of_int (emin fmt - int (precision fmt)) \<le> (2::real) powr of_int (emin fmt)"
      by simp
    with assms(2) show ?thesis by (rule order_trans)
  qed
  then have "log 2 x \<le> of_int (emin fmt)"
    using assms(1) by (simp add: log_le_iff)
  then have "\<lfloor>log 2 x\<rfloor> \<le> emin fmt" by (simp add: floor_le_iff)
  then have u: "ulp_exponent fmt x = emin fmt - int (precision fmt) + 1"
    using assms(1) by (simp add: ulp_exponent_def)
  have "2 powr of_int (emin fmt - int (precision fmt) + 1)
          = (2::real) powr (of_int (emin fmt - int (precision fmt)) + 1)" by simp
  also have "\<dots> = 2 powr of_int (emin fmt - int (precision fmt)) * 2"
    by (simp only: powr_add) simp
  finally have q: "2 powr of_int (emin fmt - int (precision fmt) + 1)
          = (2::real) powr of_int (emin fmt - int (precision fmt)) * 2" .
  define w where "w = (2::real) powr of_int (emin fmt - int (precision fmt))"
  have w: "0 < w" by (simp add: w_def)
  have xw: "x \<le> w" using assms(2) unfolding w_def .
  have qw: "2 powr of_int (ulp_exponent fmt x) = w * 2" unfolding u q w_def ..
  have "x / (w * 2) \<le> 1 / 2" using w xw by (simp add: divide_le_eq)
  then have "x / 2 powr of_int (ulp_exponent fmt x) \<le> 1 / 2" by (simp only: qw)
  moreover have "0 \<le> x / 2 powr of_int (ulp_exponent fmt x)" using assms(1) by simp
  ultimately have "round_half_even (x / 2 powr of_int (ulp_exponent fmt x)) = 0"
    by (intro round_half_even_small)
  moreover have "0 \<le> max_finite fmt" by (simp add: max_finite_def)
  ultimately show ?thesis by (simp add: round_ieee_pos [OF assms(1)])
qed

lemma round_ieee_finite_pos:
  assumes "0 < x" and "round_ieee fmt x = Finite t" and "t \<noteq> 0"
  shows "2 powr of_int (emin fmt - int (precision fmt) + 1) \<le> t" and "t \<le> max_finite fmt"
proof -
  define q where "q = (2::real) powr of_int (ulp_exponent fmt x)"
  define m where "m = round_half_even (x / q)"
  have q: "0 < q" by (simp add: q_def)
  have rd: "round_ieee fmt x = (if max_finite fmt < of_int m * q then PosInf else Finite (of_int m * q))"
    unfolding m_def q_def by (rule round_ieee_pos [OF assms(1)])
  from rd assms(2) have t: "t = of_int m * q" and le: "\<not> max_finite fmt < of_int m * q"
    by (auto split: if_splits)
  from le t show "t \<le> max_finite fmt" by simp
  have "0 \<le> x / q" using assms(1) q by simp
  then have "0 \<le> m" unfolding m_def by (rule round_half_even_nonneg)
  moreover have "m \<noteq> 0" using assms(3) t by auto
  ultimately have "1 \<le> m" by simp
  then have "(1::real) \<le> of_int m" by simp
  then have "1 * q \<le> of_int m * q" using q by (simp only: mult_le_cancel_right) simp
  then have "q \<le> t" by (simp add: t)
  moreover have "2 powr of_int (emin fmt - int (precision fmt) + 1) \<le> q"
    unfolding q_def using ulp_exponent_ge [of fmt x] by simp
  ultimately show "2 powr of_int (emin fmt - int (precision fmt) + 1) \<le> t"
    by (rule order_trans [rotated])
qed

lemma round_ieee_finite_abs:
  assumes "round_ieee fmt x = Finite t" and "t \<noteq> 0"
  shows "2 powr of_int (emin fmt - int (precision fmt) + 1) \<le> \<bar>t\<bar>" and "\<bar>t\<bar> \<le> max_finite fmt"
proof -
  have x0: "x \<noteq> 0" using assms by (auto simp add: round_ieee_zero)
  have "2 powr of_int (emin fmt - int (precision fmt) + 1) \<le> \<bar>t\<bar> \<and> \<bar>t\<bar> \<le> max_finite fmt"
  proof (cases "0 < x")
    case True
    from round_ieee_finite_pos [OF True assms] have b: "2 powr of_int (emin fmt - int (precision fmt) + 1) \<le> t"
      "t \<le> max_finite fmt" by simp_all
    have "0 < (2::real) powr of_int (emin fmt - int (precision fmt) + 1)" by simp
    from this b(1) have "0 < t" by (rule less_le_trans)
    with b show ?thesis by simp
  next
    case False
    then have nx: "0 < - x" using x0 by simp
    have r: "round_ieee fmt (- x) = Finite (- t)"
      by (simp add: round_ieee_negate assms(1))
    have nt: "- t \<noteq> 0" using assms(2) by simp
    from round_ieee_finite_pos [OF nx r nt]
    have b: "2 powr of_int (emin fmt - int (precision fmt) + 1) \<le> - t" "- t \<le> max_finite fmt"
      by simp_all
    have "0 < (2::real) powr of_int (emin fmt - int (precision fmt) + 1)" by simp
    from this b(1) have "0 < - t" by (rule less_le_trans)
    with b show ?thesis by simp
  qed
  then show "2 powr of_int (emin fmt - int (precision fmt) + 1) \<le> \<bar>t\<bar>" and "\<bar>t\<bar> \<le> max_finite fmt"
    by simp_all
qed

lemma round_ieee_bounded_pos:
  assumes p: "1 \<le> precision fmt" and y: "0 < y" and yK: "y < 2 powr of_int K"
    and K: "emin fmt < K" "K \<le> emax fmt"
  shows "\<exists>r. round_ieee fmt y = Finite r \<and> 0 \<le> r \<and> r \<le> 2 powr of_int K"
proof -
  define e where "e = max \<lfloor>log 2 y\<rfloor> (emin fmt)"
  define q where "q = (2::real) powr of_int (ulp_exponent fmt y)"
  define m where "m = round_half_even (y / q)"
  have q: "0 < q" by (simp add: q_def)
  have u: "ulp_exponent fmt y = e - int (precision fmt) + 1"
    using y by (simp add: ulp_exponent_def e_def)
  have "2 powr of_int \<lfloor>log 2 y\<rfloor> < (2::real) powr of_int K"
    using floor_log2_bounds(1) [OF y] yK by (rule le_less_trans)
  then have "\<lfloor>log 2 y\<rfloor> < K" by simp
  then have eK: "e + 1 \<le> K" using K(1) by (simp add: e_def)
  have "\<lfloor>log 2 y\<rfloor> + 1 \<le> e + 1" by (simp add: e_def)
  then have "2 powr of_int (\<lfloor>log 2 y\<rfloor> + 1) \<le> (2::real) powr of_int (e + 1)" by simp
  with floor_log2_bounds(2) [OF y] have ye: "y < 2 powr of_int (e + 1)" by (rule less_le_trans)
  have split: "(2::real) powr of_int (e + 1) = 2 ^ precision fmt * q"
  proof -
    have "(2::real) powr of_int (e + 1) = 2 powr (real (precision fmt) + of_int (e - int (precision fmt) + 1))"
      by simp
    also have "\<dots> = 2 powr real (precision fmt) * 2 powr of_int (e - int (precision fmt) + 1)"
      by (rule powr_add)
    also have "\<dots> = 2 ^ precision fmt * q" by (simp add: powr_realpow q_def u)
    finally show ?thesis .
  qed
  have "y < 2 ^ precision fmt * q" using ye by (simp only: split)
  then have "y / q \<le> 2 ^ precision fmt" using q by (simp add: divide_le_eq)
  then have "y / q \<le> of_int (2 ^ precision fmt)" by simp
  then have "m \<le> 2 ^ precision fmt" unfolding m_def by (rule round_half_even_le)
  then have "(of_int m :: real) \<le> of_int (2 ^ precision fmt)" by (simp only: of_int_le_iff)
  then have "(of_int m :: real) \<le> 2 ^ precision fmt" by simp
  then have "of_int m * q \<le> 2 ^ precision fmt * q" using q by (simp only: mult_le_cancel_right) simp
  then have r1: "of_int m * q \<le> 2 powr of_int (e + 1)" by (simp only: split)
  have "(2::real) powr of_int (e + 1) \<le> 2 powr of_int K" using eK by simp
  with r1 have rK: "of_int m * q \<le> 2 powr of_int K" by (rule order_trans)
  have "(2::real) powr of_int K \<le> 2 powr of_int (emax fmt)" using K(2) by simp
  then have "2 powr of_int K \<le> max_finite fmt"
    using max_finite_bounds(1) [OF p] by (rule order_trans)
  with rK have fin: "of_int m * q \<le> max_finite fmt" by (rule order_trans)
  have "0 \<le> y / q" using y q by simp
  then have "0 \<le> m" unfolding m_def by (rule round_half_even_nonneg)
  then have r0: "0 \<le> of_int m * q" using q by simp
  have "round_ieee fmt y = (if max_finite fmt < of_int m * q then PosInf else Finite (of_int m * q))"
    unfolding m_def q_def by (rule round_ieee_pos [OF y])
  then have "round_ieee fmt y = Finite (of_int m * q)" using fin by simp
  with r0 rK show ?thesis by blast
qed

lemma round_ieee_bounded:
  assumes p: "1 \<le> precision fmt" and yK: "\<bar>y\<bar> < 2 powr of_int K"
    and K: "emin fmt < K" "K \<le> emax fmt"
  shows "\<exists>r. round_ieee fmt y = Finite r \<and> \<bar>r\<bar> \<le> 2 powr of_int K"
proof -
  consider "y = 0" | "0 < y" | "0 < - y" by linarith
  then show ?thesis
  proof cases
    case 1
    then show ?thesis by (simp add: round_ieee_zero)
  next
    case 2
    then have "y < 2 powr of_int K" using yK by simp
    from round_ieee_bounded_pos [OF p 2 this K] show ?thesis by auto
  next
    case 3
    then have "- y < 2 powr of_int K" using yK by simp
    from round_ieee_bounded_pos [OF p 3 this K] obtain r where
      r: "round_ieee fmt (- y) = Finite r" "0 \<le> r" "r \<le> 2 powr of_int K" by blast
    from r(1) have "fl_negate (round_ieee fmt y) = Finite r" by (simp add: round_ieee_negate)
    then have "round_ieee fmt y = Finite (- r)" by (cases "round_ieee fmt y") simp_all
    with r(2,3) show ?thesis by simp
  qed
qed

lemma two_powr_neg: "(2::real) powr of_int (- int n) = 1 / 2 ^ n"
proof -
  have "(2::real) powr of_int (- int n) = 2 powr (- real n)" by simp
  also have "\<dots> = 1 / 2 powr real n" by (rule powr_minus_divide)
  also have "\<dots> = 1 / 2 ^ n" by (simp add: powr_realpow)
  finally show ?thesis .
qed

lemma two_powr_pos: "(2::real) powr of_int (int n) = 2 ^ n"
  by (simp add: powr_realpow)

lemma log_range_round_ieee:
  assumes p: "1 \<le> precision fmt"
    and lo: "1 / 10 ^ A \<le> (2::real) powr of_int (emin fmt - int (precision fmt) + 1)"
    and hi: "(2::real) powr of_int (emax fmt + 1) \<le> 10 ^ A"
    and A: "real A < 2 powr of_int K"
    and K: "emin fmt < K" "K + 4 \<le> emax fmt"
  shows "log_range (round_ieee fmt)"
  unfolding log_range_def
proof (intro allI impI)
  fix x t
  assume "round_ieee fmt x = Finite t \<and> 0 < t"
  then have rt: "round_ieee fmt x = Finite t" and t: "0 < t" by simp_all
  from t have t0: "t \<noteq> 0" by simp
  from round_ieee_finite_abs [OF rt t0] t
  have tlo: "2 powr of_int (emin fmt - int (precision fmt) + 1) \<le> t"
    and thi: "t \<le> max_finite fmt" by simp_all
  have "t < 2 powr of_int (emax fmt + 1)"
    using thi max_finite_bounds(2) [OF p] by (rule le_less_trans)
  then have "t \<le> 10 ^ A" using hi by simp
  then have up: "log 10 t \<le> real A"
    using t by (simp add: log_le_iff powr_realpow)
  have tl: "1 / 10 ^ A \<le> t" using lo tlo by (rule order_trans)
  have "(10::real) powr (- real A) = 1 / 10 ^ A"
    by (simp add: powr_minus_divide powr_realpow)
  then have "10 powr (- real A) \<le> t" using tl by simp
  then have dn: "- real A \<le> log 10 t"
    using t by (simp only: le_log_iff) 
  from up dn have "\<bar>log 10 t\<bar> \<le> real A" by simp
  then have "\<bar>log 10 t\<bar> < 2 powr of_int K" using A by simp
  from round_ieee_bounded [OF p this K(1)] K(2)
  obtain l where l: "round_ieee fmt (log 10 t) = Finite l" and lK: "\<bar>l\<bar> \<le> 2 powr of_int K"
    by auto
  have "(2::real) powr of_int (K + 4) = 2 powr (of_int K + 4)" by simp
  also have "\<dots> = 2 powr of_int K * 2 powr 4" by (rule powr_add)
  also have "\<dots> = 2 powr of_int K * 16" by simp
  finally have k4: "(2::real) powr of_int (K + 4) = 2 powr of_int K * 16" .
  define w where "w = (2::real) powr of_int K"
  have "0 < w" by (simp add: w_def)
  moreover have "\<bar>l\<bar> \<le> w" using lK by (simp only: w_def)
  moreover have "\<bar>10 * l\<bar> = 10 * \<bar>l\<bar>" by (simp add: abs_mult)
  ultimately have "\<bar>10 * l\<bar> < w * 16" by linarith
  then have "\<bar>10 * l\<bar> < 2 powr of_int K * 16" by (simp only: w_def)
  then have "\<bar>10 * l\<bar> < 2 powr of_int (K + 4)" by (simp only: k4)
  from round_ieee_bounded [OF p this _ K(2)] K(1)
  obtain v where "round_ieee fmt (10 * l) = Finite v" by auto
  with l show "\<exists>l. round_ieee fmt (log 10 t) = Finite l \<and> (\<exists>v. round_ieee fmt (10 * l) = Finite v)"
    by blast
qed

lemma rounding_round_ieee:
  assumes "log_range (round_ieee fmt)"
  shows "rounding (round_ieee fmt)"
  unfolding rounding_def
proof (intro conjI allI impI)
  show "round_ieee fmt 0 = Finite 0" by (rule round_ieee_zero)
  show "round_ieee fmt x \<noteq> NaN" for x by (rule round_ieee_not_NaN)
  show "nonneg (round_ieee fmt x)" if "0 \<le> x" for x using that by (rule round_ieee_nonneg)
  show "nonneg (fl_negate (round_ieee fmt x))" if "x \<le> 0" for x
  proof -
    have "0 \<le> - x" using that by simp
    then have "nonneg (round_ieee fmt (- x))" by (rule round_ieee_nonneg)
    then show ?thesis by (simp add: round_ieee_negate)
  qed
  show "log_range (round_ieee fmt)" by (rule assms)
qed

lemma rounding_binary32: "rounding (round_ieee binary32)"
proof (rule rounding_round_ieee, rule log_range_round_ieee [where A = 64 and K = 7])
  show "1 \<le> precision binary32" by (simp add: binary32_def)
  have lo: "emin binary32 - int (precision binary32) + 1 = - int 149"
    by (simp add: binary32_def)
  show "1 / 10 ^ 64 \<le> (2::real) powr of_int (emin binary32 - int (precision binary32) + 1)"
    by (simp only: lo two_powr_neg) simp
  have hi: "emax binary32 + 1 = int 128" by (simp add: binary32_def)
  show "(2::real) powr of_int (emax binary32 + 1) \<le> 10 ^ 64"
    by (simp only: hi two_powr_pos) simp
  have "(2::real) powr of_int 7 = 2 ^ 7" using two_powr_pos [of 7] by simp
  then show "real 64 < 2 powr of_int 7" by simp
  show "emin binary32 < 7" by (simp add: binary32_def)
  show "7 + 4 \<le> emax binary32" by (simp add: binary32_def)
qed

lemma rounding_binary64: "rounding (round_ieee binary64)"
proof (rule rounding_round_ieee, rule log_range_round_ieee [where A = 400 and K = 9])
  show "1 \<le> precision binary64" by (simp add: binary64_def)
  have lo: "emin binary64 - int (precision binary64) + 1 = - int 1074"
    by (simp add: binary64_def)
  show "1 / 10 ^ 400 \<le> (2::real) powr of_int (emin binary64 - int (precision binary64) + 1)"
    by (simp only: lo two_powr_neg) simp
  have hi: "emax binary64 + 1 = int 1024" by (simp add: binary64_def)
  show "(2::real) powr of_int (emax binary64 + 1) \<le> 10 ^ 400"
    by (simp only: hi two_powr_pos) simp
  have "(2::real) powr of_int 9 = 2 ^ 9" using two_powr_pos [of 9] by simp
  then show "real 400 < 2 powr of_int 9" by simp
  show "emin binary64 < 9" by (simp add: binary64_def)
  show "9 + 4 \<le> emax binary64" by (simp add: binary64_def)
qed

lemma rounding_exact: "rounding Finite"
  by (simp add: rounding_def log_range_def)

lemma binary32_exact:
  assumes "n \<le> 149"
  shows "round_ieee binary32 (1 / 2 ^ n) = Finite (1 / 2 ^ n)"
proof -
  have "round_ieee binary32 (2 powr of_int (- int n)) =
          (if emax binary32 < - int n then PosInf else Finite (2 powr of_int (- int n)))"
    using assms by (intro round_ieee_powr2) (simp_all add: binary32_def)
  moreover have "\<not> emax binary32 < - int n" by (simp add: binary32_def)
  ultimately have "round_ieee binary32 (2 powr of_int (- int n)) = Finite (2 powr of_int (- int n))"
    by (simp only: if_False)
  then show ?thesis by (simp only: two_powr_neg)
qed

lemma binary32_underflow:
  assumes "150 \<le> n"
  shows "round_ieee binary32 (1 / 2 ^ n) = Finite 0"
proof (rule round_ieee_underflow)
  show "0 < (1::real) / 2 ^ n" by simp
  have "emin binary32 - int (precision binary32) = - int 150" by (simp add: binary32_def)
  then have w: "(2::real) powr of_int (emin binary32 - int (precision binary32)) = 1 / 2 ^ 150"
    by (simp only: two_powr_neg)
  have "(2::real) ^ 150 \<le> 2 ^ n" using assms by (intro power_increasing) simp_all
  then have "(1::real) / 2 ^ n \<le> 1 / 2 ^ 150" by (intro divide_left_mono) simp_all
  then show "(1::real) / 2 ^ n \<le> 2 powr of_int (emin binary32 - int (precision binary32))"
    by (simp only: w)
qed


lemmas snr_fl_eval = calculate_snr_fl_def noise_power_fl_def signal_power_fl_def
  fl_subtract_def fl_mean_def fl_sum_def fl_square_def

subsection \<open>Without rounding\<close>









subsection \<open>Four runs in the 32-bit format\<close>









section \<open>The SNR of two aligned signals\<close>




text \<open>
  Claim C2. For every non-empty sample sequence \<open>a\<close>, comparing \<open>a\<close> to itself returns the
  perfect-reconstruction sentinel \<^verbatim>\<open>np.inf\<close>: the result is neither an error nor a finite
  value.
\<close>

theorem calculate_snr_self:
  assumes "a \<noteq> []"
  shows "calculate_snr a a = Inr sentinel"
proof -
  have "noise_power a a = Inr (Finite 0)"
    using noise_power_zero_iff [of a a] assms by simp
  then show ?thesis by (simp add: calculate_snr_def)
qed

theorem calculate_snr_self_witness:
  "[1, 1, 1, 1] \<noteq> ([] :: real list) \<and> calculate_snr [1, 1, 1, 1] [1, 1, 1, 1] = Inr sentinel"
  using calculate_snr_self [of "[1, 1, 1, 1]"] by simp




text \<open>
  Claim C6, as stated, fails. The source has no check for an empty sequence and raises no
  error of its own: for two empty sequences both means are not-a-number and so is the
  result.
\<close>

theorem calculate_snr_empty_counterexample:
  "calculate_snr [] [] = Inr NaN"
  by (simp add: snr_eval)

text \<open>
  Claim C6, amended. When the reference or the test sequence is empty, the function
  returns not-a-number if the other sequence has at most one element (two empty sequences,
  as alignment produces them, among them), and otherwise raises numpy's broadcasting error
  in the subtraction.
\<close>

theorem calculate_snr_empty:
  assumes "a = [] \<or> b = []"
  shows "calculate_snr a b =
           (if length a \<le> 1 \<and> length b \<le> 1 then Inr NaN else Inl BroadcastError)"
proof -
  consider (both) "a = []" "b = []" | (left) "a = []" "b \<noteq> []" | (right) "a \<noteq> []" "b = []"
    using assms by blast
  then show ?thesis
  proof cases
    case both
    then show ?thesis by (simp add: snr_eval)
  next
    case left
    then show ?thesis by (cases b) (auto simp add: snr_eval)
  next
    case right
    then show ?thesis by (cases a) (auto simp add: snr_eval)
  qed
qed

theorem calculate_snr_empty_witness:
  "calculate_snr [] [1, 2] = Inl BroadcastError \<and> calculate_snr [3] [] = Inr NaN"
  using calculate_snr_empty [of "[]" "[1, 2]"] calculate_snr_empty [of "[3]" "[]"]
  by simp

text \<open>
  Claim C9, as stated, fails. In the 32-bit format, for the reference \<open>[0]\<close> against
  \<open>[1 / 2 ^ 100]\<close> the difference is not zero and its square underflows to zero: the
  noise power is zero and the function returns the sentinel, not minus infinity.
\<close>

theorem calculate_snr_noise_underflow_counterexample:
  "[0] \<noteq> [1 / 2 ^ 100 :: real]
   \<and> calculate_snr_fl (round_ieee binary32) [0] [1 / 2 ^ 100] = Inr sentinel"
  using binary32_exact [of 100] binary32_underflow [of 200]
  by (simp add: snr_fl_eval round_ieee_negate round_ieee_zero)

text \<open>
  Claim C9, amended. For two non-empty sequences of equal length where the reference is
  zero throughout and the test differs from it somewhere, and the computed noise power is
  not zero, the result is minus infinity: it is not an error, not the sentinel and not a
  finite value.
\<close>

theorem calculate_snr_zero_reference:
  assumes "rounding rnd" and "length a = length b" and "a \<noteq> []"
    and "\<forall>x \<in> set a. x = 0" and "a \<noteq> b"
    and "noise_power_fl rnd a b = Inr np" and "\<not> np_equal np (Finite 0)"
  shows "calculate_snr_fl rnd a b = Inr NegInf"
  using assms(1,2,3,4,6,7) by (rule calculate_snr_fl_zero_reference)

theorem calculate_snr_zero_reference_witness:
  "calculate_snr_fl (round_ieee binary32) [0, 0] [0, 1 / 2] = Inr NegInf"
proof -
  have np: "noise_power_fl (round_ieee binary32) [0, 0] [0, 1 / 2] = Inr (Finite (1 / 8))"
    using binary32_exact [of 1] binary32_exact [of 2] binary32_exact [of 3]
    by (simp add: snr_fl_eval round_ieee_negate round_ieee_zero)
  show ?thesis
    using calculate_snr_zero_reference [OF rounding_binary32 _ _ _ _ np] by simp
qed

text \<open>
  Claim C10. Scaling both sequences by the same non-zero number changes neither the SNR
  nor whether the noise power is zero, for non-empty sequences of equal length in exact
  arithmetic.
\<close>

theorem calculate_snr_scale:
  assumes "c \<noteq> 0" and "length a = length b" and "a \<noteq> []"
  shows "calculate_snr (map ((*) c) a) (map ((*) c) b) = calculate_snr a b
       \<and> (noise_power (map ((*) c) a) (map ((*) c) b) = Inr (Finite 0)
            \<longleftrightarrow> noise_power a b = Inr (Finite 0))"
proof -
  define s where "s = mean (np_square a)"
  define n where "n = mean (np_square (map2 (\<lambda>x y. x - y) a b))"
  have len: "length (map ((*) c) a) = length (map ((*) c) b)" using assms(2) by simp
  have ne: "map ((*) c) a \<noteq> []" using assms(3) by simp
  have s': "mean (np_square (map ((*) c) a)) = c * c * s"
    unfolding s_def by (rule mean_square_scale)
  have n': "mean (np_square (map2 (\<lambda>x y. x - y) (map ((*) c) a) (map ((*) c) b))) = c * c * n"
    unfolding n_def map2_diff_scale by (rule mean_square_scale)
  have orig: "calculate_snr a b =
      Inr (if n = 0 then PosInf else if s = 0 then NegInf else Finite (10 * log 10 (s / n)))"
    unfolding s_def n_def by (rule calculate_snr_equal_length [OF assms(2,3)])
  have scaled: "calculate_snr (map ((*) c) a) (map ((*) c) b) =
      Inr (if c * c * n = 0 then PosInf else if c * c * s = 0 then NegInf
           else Finite (10 * log 10 (c * c * s / (c * c * n))))"
    using calculate_snr_equal_length [OF len ne] unfolding s' n' .
  have np: "noise_power a b = Inr (Finite n)"
    unfolding n_def by (rule noise_power_nonempty [OF assms(2,3)])
  have np': "noise_power (map ((*) c) a) (map ((*) c) b) = Inr (Finite (c * c * n))"
    using noise_power_nonempty [OF len ne] unfolding n' .
  show ?thesis
    using assms(1) by (simp add: orig scaled np np')
qed

theorem calculate_snr_scale_witness:
  "calculate_snr (map ((*) 3) [1, 2]) (map ((*) 3) [1, 1]) = calculate_snr [1, 2] [1, 1]"
  using calculate_snr_scale [of 3 "[1, 2]" "[1, 1]"] by simp

section \<open>Alignment\<close>

text \<open>
  Claim C5. For two sample sequences of lengths \<open>m\<close> and \<open>n\<close>, alignment returns two
  sequences of length \<open>min m n\<close>, each a prefix of the input it comes from: the leading
  samples, unchanged.
\<close>

theorem align_signals_prefixes:
  "length (fst (align_signals a b)) = min (length a) (length b)
   \<and> length (snd (align_signals a b)) = min (length a) (length b)
   \<and> prefix (fst (align_signals a b)) a
   \<and> prefix (snd (align_signals a b)) b"
  by (simp add: align_signals_def Let_def take_is_prefix)

theorem align_signals_prefixes_witness:
  "align_signals [1, 2, 3, 4, 5] [6, 7, 8] = ([1, 2, 3], [6, 7, 8])"
  using align_signals_prefixes [of "[1, 2, 3, 4, 5]" "[6, 7, 8]"]
  by (simp add: align_signals_def Let_def)

section \<open>The loop over the catalog\<close>

text \<open>
  Claim C4, as stated, fails. A loader can succeed and return no samples (a file with a
  header and no frames). Here the original loads to two samples and the compressed file
  to none: alignment truncates both to length zero, and the SNR of the original against
  itself is not-a-number, not the sentinel.
\<close>

theorem process_files_empty_signal_counterexample:
  "process_files (\<lambda>path. Inr (if path = ''elliot-og.wav'' then [1, -1] else [], 44100))
     [\<lparr>original = ''elliot-og.wav'', compressed = ''elliot-mp3.mp3'', algorithm = ''ELLIOT-MP3'',
       size_mb = 253 / 100, duration_sec = 2 * 60 + 36, bitrate_kbps = 128\<rparr>] empty_dataset
   = Inr \<lparr>compressed_snr_values = [NaN], wav_snr_values = [NaN],
          algorithm_labels = [''ELLIOT-MP3''], file_sizes = [253 / 100],
          durations = [13 / 5], bit_rates = [128]\<rparr>"
  by (simp add: process_file_def align_signals_def empty_dataset_def snr_eval)

text \<open>
  Claim C4, amended. For every catalog, when every file of every entry loads to at least
  one sample, the loop ends without an error and each of its six lists has one element
  for each entry, in the order of the catalog: the SNR of the entry's compressed file, the
  sentinel as the SNR of the original against itself, the algorithm label, the file size,
  the duration in seconds divided by 60, and the bit rate.
\<close>

theorem process_files_records:
  assumes "\<forall>file \<in> set fs. loads_nonempty load (original file)
                          \<and> loads_nonempty load (compressed file)"
  shows "\<exists>d. process_files load fs empty_dataset = Inr d
     \<and> length (compressed_snr_values d) = length fs
     \<and> map Inr (compressed_snr_values d) = map (entry_snr load) fs
     \<and> wav_snr_values d = replicate (length fs) sentinel
     \<and> algorithm_labels d = map algorithm fs
     \<and> file_sizes d = map size_mb fs
     \<and> durations d = map (\<lambda>file. real_of_int (duration_sec file) / 60) fs
     \<and> bit_rates d = map bitrate_kbps fs"
proof -
  from process_files_append [OF assms, of empty_dataset] obtain d where
    d: "process_files load fs empty_dataset = Inr d" and
    f1: "map Inr (compressed_snr_values d) = map (entry_snr load) fs" and
    rest: "wav_snr_values d = replicate (length fs) sentinel"
      "algorithm_labels d = map algorithm fs"
      "file_sizes d = map size_mb fs"
      "durations d = map (\<lambda>file. real_of_int (duration_sec file) / 60) fs"
      "bit_rates d = map bitrate_kbps fs"
    by (auto simp add: empty_dataset_def)
  have "length (map Inr (compressed_snr_values d) :: (error + npfloat) list) = length (map (entry_snr load) fs)"
    by (simp only: f1)
  then have "length (compressed_snr_values d) = length fs" by simp
  with d f1 rest show ?thesis by blast
qed

theorem process_files_records_witness:
  "\<exists>d. process_files (\<lambda>path. Inr (if last path = CHR ''v'' then [1, -1, 1] else [1 / 2, -1 / 2], 44100))
          files empty_dataset = Inr d
     \<and> map Inr (compressed_snr_values d) =
         [Inr (Finite (10 * log 10 4)), Inr (Finite (10 * log 10 4)),
          Inr (Finite (10 * log 10 4)), Inr (Finite (10 * log 10 4)) :: error + npfloat]
     \<and> wav_snr_values d = [sentinel, sentinel, sentinel, sentinel]
     \<and> algorithm_labels d = [''ELLIOT-MP3'', ''FLOW-AAC'', ''SINATRA-FLAC'', ''WALTZ-OGG'']
     \<and> file_sizes d = [253 / 100, 314 / 100, 16, 260 / 100]
     \<and> durations d = [13 / 5, 41 / 12, 97 / 30, 23 / 6]
     \<and> bit_rates d = [128, 160, 1000, 192]"
proof -
  let ?load = "\<lambda>path. Inr (if last path = CHR ''v'' then [1, -1, 1] else [1 / 2, -1 / 2], 44100 :: nat)
                 :: error + real list \<times> nat"
  have loaded: "\<forall>file \<in> set files. loads_nonempty ?load (original file)
                                  \<and> loads_nonempty ?load (compressed file)"
    by (simp add: files_def loads_nonempty_def)
  have snr: "map (entry_snr ?load) files =
         [Inr (Finite (10 * log 10 4)), Inr (Finite (10 * log 10 4)),
          Inr (Finite (10 * log 10 4)), Inr (Finite (10 * log 10 4))]"
    by (simp add: files_def entry_snr_def loaded_samples_def align_signals_def snr_eval)
  from process_files_records [OF loaded] obtain d where
    run: "process_files ?load files empty_dataset = Inr d" and
    comp: "map Inr (compressed_snr_values d) = map (entry_snr ?load) files" and
    meta: "wav_snr_values d = replicate (length files) sentinel"
      "algorithm_labels d = map algorithm files"
      "file_sizes d = map size_mb files"
      "durations d = map (\<lambda>file. real_of_int (duration_sec file) / 60) files"
      "bit_rates d = map bitrate_kbps files"
    by blast
  have comp': "map Inr (compressed_snr_values d) =
         [Inr (Finite (10 * log 10 4)), Inr (Finite (10 * log 10 4)),
          Inr (Finite (10 * log 10 4)), Inr (Finite (10 * log 10 4)) :: error + npfloat]"
    using comp unfolding snr .
  have meta': "wav_snr_values d = [sentinel, sentinel, sentinel, sentinel]
     \<and> algorithm_labels d = [''ELLIOT-MP3'', ''FLOW-AAC'', ''SINATRA-FLAC'', ''WALTZ-OGG'']
     \<and> file_sizes d = [253 / 100, 314 / 100, 16, 260 / 100]
     \<and> durations d = [13 / 5, 41 / 12, 97 / 30, 23 / 6]
     \<and> bit_rates d = [128, 160, 1000, 192]"
    using meta by (simp add: files_def)
  show ?thesis
    by (rule exI [of _ d], rule conjI [OF run conjI [OF comp' meta']])
qed

section \<open>Display\<close>

text \<open>
  Claim C7, as stated, fails. The placeholder is the number 100, and 100 dB is a value
  the SNR can take: a one-sample reference \<open>1\<close> against \<open>0.99999\<close>. In a list holding that
  measurement and a sentinel the two bars have the same height.
\<close>

theorem placeholder_not_distinct_counterexample:
  "calculate_snr [1] [99999 / 100000] = Inr (Finite 100)
   \<and> visual_snr_values [sentinel, Finite 100] = [Finite 100, Finite 100]"
proof -
  have l: "log 10 ((10 :: real) ^ 10) = real 10" by (rule log_pow_cancel) simp_all
  have e: "(10 :: real) ^ 10 = 10000000000" by simp
  have "log 10 10000000000 = (10 :: real)" using l unfolding e by simp
  then show ?thesis by (simp add: snr_eval visual_snr_values_def)
qed

text \<open>
  Claim C7, amended. The substitution keeps the length and the order of the list; a
  value equal to the sentinel is drawn with height 100 and labelled with the infinity
  glyph, and every other value is drawn unchanged and labelled with the number itself.
  The height 100 is not kept apart from a measurement of exactly 100 dB; the label is
  what tells the two apart.
\<close>

theorem visual_snr_values_substitution:
  "length (visual_snr_values vs) = length vs
   \<and> length (bars vs) = length vs
   \<and> (\<forall>i < length vs.
        fst (bars vs ! i) = visual_snr_values vs ! i
        \<and> (vs ! i = sentinel \<longrightarrow>
             visual_snr_values vs ! i = Finite 100
             \<and> snd (bars vs ! i) = \<lparr>offset = 2, text_of = InfinityGlyph, red = True\<rparr>)
        \<and> (vs ! i \<noteq> sentinel \<longrightarrow>
             visual_snr_values vs ! i = vs ! i
             \<and> snd (bars vs ! i) = \<lparr>offset = 1 / 2, text_of = TwoDecimals (vs ! i), red = False\<rparr>))"
  by (simp add: visual_snr_values_def bars_def label_of_def)

theorem visual_snr_values_substitution_witness:
  "bars [sentinel, Finite 6, NaN] =
     [(Finite 100, \<lparr>offset = 2, text_of = InfinityGlyph, red = True\<rparr>),
      (Finite 6, \<lparr>offset = 1 / 2, text_of = TwoDecimals (Finite 6), red = False\<rparr>),
      (NaN, \<lparr>offset = 1 / 2, text_of = TwoDecimals NaN, red = False\<rparr>)]"
  using visual_snr_values_substitution [of "[sentinel, Finite 6, NaN]"]
  by (simp add: visual_snr_values_def bars_def label_of_def)

section \<open>Purity\<close>

text \<open>
  Claim C8. The result of \<^verbatim>\<open>calculate_snr\<close> depends on the contents of its two argument
  arrays only: two calls, in any two stores, on arguments with equal contents return
  equal results, the result being what the function over lists computes. The call
  changes no array that existed before it, its two arguments among them; all it does to
  the store is allocate its intermediate arrays.
\<close>

theorem calculate_snr_st_pure:
  assumes "p < length h" and "q < length h" and "p' < length h'" and "q' < length h'"
    and "h ! p = h' ! p'" and "h ! q = h' ! q'"
  shows "fst (calculate_snr_st h p q) = fst (calculate_snr_st h' p' q')
       \<and> fst (calculate_snr_st h p q) = calculate_snr (h ! p) (h ! q)
       \<and> (\<forall>r < length h. snd (calculate_snr_st h p q) ! r = h ! r)"
proof -
  have res: "fst (calculate_snr_st h p q) = calculate_snr (h ! p) (h ! q)"
    using assms(1,2) by (rule calculate_snr_st_result)
  have res': "fst (calculate_snr_st h' p' q') = calculate_snr (h' ! p') (h' ! q')"
    using assms(3,4) by (rule calculate_snr_st_result)
  obtain new where new: "snd (calculate_snr_st h p q) = h @ new"
    using calculate_snr_st_store [of h p q] by (auto simp add: prefix_def)
  have "\<forall>r < length h. snd (calculate_snr_st h p q) ! r = h ! r"
    by (simp add: new nth_append)
  with res res' assms(5,6) show ?thesis by simp
qed

theorem calculate_snr_st_pure_witness:
  "fst (calculate_snr_st [[1, 2], [1, 1]] 0 1) = fst (calculate_snr_st [[5], [1, 1], [1, 2]] 2 1)
   \<and> fst (calculate_snr_st [[1, 2], [1, 1]] 0 1) = calculate_snr [1, 2] [1, 1]
   \<and> snd (calculate_snr_st [[1, 2], [1, 1]] 0 1) ! 0 = [1, 2]
   \<and> snd (calculate_snr_st [[1, 2], [1, 1]] 0 1) ! 1 = [1, 1]"
proof -
  have w: "fst (calculate_snr_st [[1, 2], [1, 1]] 0 1)
             = fst (calculate_snr_st [[5], [1, 1], [1, 2]] 2 1)
       \<and> fst (calculate_snr_st [[1, 2], [1, 1]] 0 1)
             = calculate_snr ([[1, 2], [1, 1]] ! 0) ([[1, 2], [1, 1]] ! 1)
       \<and> (\<forall>r < length [[1, 2], [1, 1 :: real]].
             snd (calculate_snr_st [[1, 2], [1, 1]] 0 1) ! r = [[1, 2], [1, 1]] ! r)"
    by (rule calculate_snr_st_pure) simp_all
  note same = w [THEN conjunct1]
  note result = w [THEN conjunct2, THEN conjunct1]
  note kept = w [THEN conjunct2, THEN conjunct2, rule_format]
  have r: "fst (calculate_snr_st [[1, 2], [1, 1]] 0 1) = calculate_snr [1, 2] [1, 1]"
    using result by simp
  have k0: "snd (calculate_snr_st [[1, 2], [1, 1]] 0 1) ! 0 = [1, 2]"
    using kept [of 0] by simp
  have k1: "snd (calculate_snr_st [[1, 2], [1, 1]] 0 1) ! 1 = [1, 1]"
    using kept [of 1] by simp
  show ?thesis
    by (rule conjI [OF same conjI [OF r conjI [OF k0 k1]]])
qed

end
